theory Spec2Isabelle
  imports Main "HOL-Library.Word"
begin

unbundle bit_operations_syntax

section \<open>The Frontier Designs Tranzport driver (drivers/staging/frontier/tranzport.c)\<close>

text \<open>
  A shallow embedding of the part of the driver that the source file holds: the module
  parameters, the device structure, \<^verbatim>\<open>usb_tranzport_abort_transfers\<close>, the sysfs
  attributes generated by \<^verbatim>\<open>show_int\<close> and \<^verbatim>\<open>show_set_int\<close>, and the statements of
  the interrupt-in completion callback that the file holds. The source file ends inside
  that callback; the code behind its labels and the ring buffer operations are not in it.
\<close>

subsection \<open>Constants and module parameters\<close>

definition RING_BUFFER_SIZE :: int where
  "RING_BUFFER_SIZE = 1000"

definition WRITE_BUFFER_SIZE :: int where
  "WRITE_BUFFER_SIZE = 34"

definition TRANZPORT_USB_TIMEOUT :: int where
  "TRANZPORT_USB_TIMEOUT = 10"

definition TRANZPORT_DEBUG :: int where
  "TRANZPORT_DEBUG = 0"

text \<open>
  The five \<^verbatim>\<open>static int\<close> variables registered with \<^verbatim>\<open>module_param\<close>. The intervals are
  in milliseconds (\<^verbatim>\<open>MODULE_PARM_DESC\<close>: "Minimum interrupt in interval in ms").
\<close>

record module_params =
  debug :: int
  ring_buffer_size :: int
  write_buffer_size :: int
  min_interrupt_in_interval :: int
  min_interrupt_out_interval :: int

text \<open>The initialisers of the five variables: what they hold when nothing is set at load time.\<close>

definition initial_params :: module_params where
  "initial_params =
     \<lparr>debug = TRANZPORT_DEBUG,
      ring_buffer_size = RING_BUFFER_SIZE,
      write_buffer_size = WRITE_BUFFER_SIZE,
      min_interrupt_in_interval = TRANZPORT_USB_TIMEOUT,
      min_interrupt_out_interval = TRANZPORT_USB_TIMEOUT\<rparr>"

text \<open>Error numbers of \<^verbatim>\<open>linux/errno.h\<close> that the file uses.\<close>

definition ENOENT :: int where
  "ENOENT = 2"

definition EINVAL :: int where
  "EINVAL = 22"

definition ECONNRESET :: int where
  "ECONNRESET = 104"

definition ESHUTDOWN :: int where
  "ESHUTDOWN = 108"

text \<open>Permission bits of \<^verbatim>\<open>linux/stat.h\<close> (octal 0444 and 0200).\<close>

definition S_IRUGO :: nat where
  "S_IRUGO = 292"

definition S_IWUSR :: nat where
  "S_IWUSR = 128"

subsection \<open>The device structure\<close>

text \<open>\<^verbatim>\<open>struct tranzport_cmd { unsigned char cmd[8]; }\<close>: one report of the device.\<close>

record tranzport_cmd =
  cmd :: "8 word list"

text \<open>
  \<^verbatim>\<open>struct usb_tranzport\<close>. Pointers to kernel objects are kept as far as the code reads
  them: \<open>intf\<close> is \<open>None\<close> for a NULL pointer, the two URBs are named by a number. The
  mutex, the two wait queues and the endpoint descriptors carry no value the modelled
  functions read and are left out. \<open>ring_head\<close> and \<open>ring_tail\<close> are \<^verbatim>\<open>unsigned int\<close>
  slot numbers: in the operations below they stay under the number of slots, so the
  wrap-around of the C type plays no part and they are natural numbers here. The \<^verbatim>\<open>int\<close>
  flags are only tested against 0 and set to 0. The three sysfs fields are
  \<^verbatim>\<open>unsigned char\<close>, where the cut to eight bits matters.
\<close>

type_synonym usb_interface = nat

type_synonym urb_ptr = nat

record usb_tranzport =
  intf :: "usb_interface option"
  open_count :: int
  ring_buffer :: "tranzport_cmd list"
  ring_head :: nat
  ring_tail :: nat
  interrupt_in_buffer :: "8 word list"
  interrupt_in_urb :: urb_ptr
  interrupt_in_interval :: int
  interrupt_in_endpoint_size :: nat
  interrupt_in_running :: int
  interrupt_in_done :: int
  interrupt_out_buffer :: "8 word list"
  interrupt_out_urb :: urb_ptr
  interrupt_out_interval :: int
  interrupt_out_endpoint_size :: nat
  interrupt_out_busy :: int
  enable :: "8 word"
  offline :: "8 word"
  compress_wheel :: "8 word"

subsection \<open>Calls into the kernel, as a trace\<close>

text \<open>
  What a function asks of the kernel is returned as a list of actions, in program order,
  beside the updated structure: the log calls \<^verbatim>\<open>dev_info\<close> and \<^verbatim>\<open>dev_warn\<close>, each with
  the device it is given and its message, and \<^verbatim>\<open>usb_kill_urb\<close>. These are the only
  kernel calls in the modelled functions.
\<close>

datatype log_msg =
  Nonzero_status int
  | Urb_length nat
  | Received "8 word list"

datatype action =
  Dev_info usb_interface log_msg
  | Dev_warn usb_interface log_msg
  | Usb_kill_urb urb_ptr

text \<open>
  The callback gives its log calls the device \<^verbatim>\<open>&dev->intf->dev\<close>. With \<^verbatim>\<open>dev->intf\<close>
  NULL that pointer is computed from NULL and the log call reads through it: undefined
  behaviour in C, a fault here, and nothing after it is run. \<^verbatim>\<open>dbg_info\<close> is the file's
  own macro, \<^verbatim>\<open>if (debug) dev_info(...)\<close>: it evaluates its arguments and logs only when
  the \<open>debug\<close> parameter is not zero.
\<close>

datatype fault =
  Null_interface

definition dev_warn :: "usb_interface option \<Rightarrow> log_msg \<Rightarrow> fault + action list" where
  "dev_warn i m = (case i of None \<Rightarrow> Inl Null_interface | Some d \<Rightarrow> Inr [Dev_warn d m])"

definition dbg_info :: "int \<Rightarrow> usb_interface option \<Rightarrow> log_msg \<Rightarrow> fault + action list" where
  "dbg_info dbg i m =
     (if dbg \<noteq> 0
      then (case i of None \<Rightarrow> Inl Null_interface | Some d \<Rightarrow> Inr [Dev_info d m])
      else Inr [])"

subsection \<open>usb\_tranzport\_abort\_transfers\<close>

definition usb_tranzport_abort_transfers :: "usb_tranzport \<Rightarrow> usb_tranzport \<times> action list" where
  "usb_tranzport_abort_transfers dev =
     (let dev1 = (if interrupt_in_running dev \<noteq> 0
                  then dev\<lparr>interrupt_in_running := 0\<rparr> else dev);
          kill_in = (if interrupt_in_running dev \<noteq> 0
                     then (if intf dev \<noteq> None then [Usb_kill_urb (interrupt_in_urb dev)] else [])
                     else []);
          kill_out = (if interrupt_out_busy dev1 \<noteq> 0
                      then (if intf dev1 \<noteq> None then [Usb_kill_urb (interrupt_out_urb dev1)] else [])
                      else [])
      in (dev1, kill_in @ kill_out))"

subsection \<open>The sysfs attributes\<close>

text \<open>
  \<^verbatim>\<open>sprintf(buf, "%d\n", t->value)\<close> for an \<^verbatim>\<open>unsigned char\<close> field: the decimal digits of
  a number from 0 to 255 and a newline. The function's result, the number of characters
  written, is the length of the text.
\<close>

definition digit_char :: "nat \<Rightarrow> char" where
  "digit_char d = ''0123456789'' ! d"

fun dec_digits :: "nat \<Rightarrow> string" where
  "dec_digits n =
     (if n < 10 then [digit_char n] else dec_digits (n div 10) @ [digit_char (n mod 10)])"

declare dec_digits.simps [simp del]

definition sprintf_d_nl :: "8 word \<Rightarrow> string" where
  "sprintf_d_nl v = dec_digits (unat v) @ [CHR 0x0A]"

definition show_enable :: "usb_tranzport \<Rightarrow> string" where
  "show_enable t = sprintf_d_nl (enable t)"

definition show_offline :: "usb_tranzport \<Rightarrow> string" where
  "show_offline t = sprintf_d_nl (offline t)"

definition show_compress_wheel :: "usb_tranzport \<Rightarrow> string" where
  "show_compress_wheel t = sprintf_d_nl (compress_wheel t)"

text \<open>
  \<^verbatim>\<open>set_compress_wheel\<close>, from \<^verbatim>\<open>show_set_int\<close>. \<^verbatim>\<open>strict_strtoul\<close> is the kernel's and
  is a parameter: given the text and the base it returns its result code and what it
  stored in \<^verbatim>\<open>temp\<close>, an \<^verbatim>\<open>unsigned long\<close>. The assignment to the \<^verbatim>\<open>unsigned char\<close>
  field keeps the low eight bits. The result is \<^verbatim>\<open>-EINVAL\<close> or \<open>count\<close>.
\<close>

type_synonym ulong = "64 word"

type_synonym strtoul_fn = "string \<Rightarrow> nat \<Rightarrow> int \<times> ulong"

definition set_compress_wheel ::
  "strtoul_fn \<Rightarrow> string \<Rightarrow> nat \<Rightarrow> usb_tranzport \<Rightarrow> (int + nat) \<times> usb_tranzport" where
  "set_compress_wheel strict_strtoul buf count t =
     (case strict_strtoul buf 10 of
        (rc, temp) \<Rightarrow>
          if rc \<noteq> 0 then (Inl (- EINVAL), t)
          else (Inr count, t\<lparr>compress_wheel := ucast temp\<rparr>))"

text \<open>
  \<^verbatim>\<open>DEVICE_ATTR(name, mode, show, store)\<close> declares \<^verbatim>\<open>dev_attr_name\<close> with these four
  parts; a NULL \<^verbatim>\<open>store\<close> is \<open>None\<close>.
\<close>

record device_attribute =
  attr_name :: string
  attr_mode :: nat
  attr_show :: "usb_tranzport \<Rightarrow> string"
  attr_store :: "(string \<Rightarrow> nat \<Rightarrow> usb_tranzport \<Rightarrow> (int + nat) \<times> usb_tranzport) option"

definition dev_attr_enable :: device_attribute where
  "dev_attr_enable =
     \<lparr>attr_name = ''enable'', attr_mode = S_IRUGO,
      attr_show = show_enable, attr_store = None\<rparr>"

definition dev_attr_offline :: device_attribute where
  "dev_attr_offline =
     \<lparr>attr_name = ''offline'', attr_mode = S_IRUGO,
      attr_show = show_offline, attr_store = None\<rparr>"

definition dev_attr_compress_wheel :: "strtoul_fn \<Rightarrow> device_attribute" where
  "dev_attr_compress_wheel strict_strtoul =
     \<lparr>attr_name = ''compress_wheel'', attr_mode = S_IWUSR OR S_IRUGO,
      attr_show = show_compress_wheel,
      attr_store = Some (set_compress_wheel strict_strtoul)\<rparr>"

text \<open>Reading a decimal text back: the number its digits denote, up to the newline.\<close>

definition digit_of :: "char \<Rightarrow> nat" where
  "digit_of c = of_char c - 48"

definition is_digit :: "char \<Rightarrow> bool" where
  "is_digit c = (48 \<le> (of_char c :: nat) \<and> (of_char c :: nat) \<le> 57)"

definition dec_value :: "string \<Rightarrow> nat" where
  "dec_value s = foldl (\<lambda>a c. 10 * a + digit_of c) 0 (takeWhile is_digit s)"

text \<open>
  A decimal parser with the interface of \<^verbatim>\<open>strict_strtoul\<close>, to evaluate a write on a
  concrete text: digits, then the end of the text or one final newline; anything else is
  refused with \<^verbatim>\<open>-EINVAL\<close>. The number wraps in an \<^verbatim>\<open>unsigned long\<close>.
\<close>

definition decimal_strtoul :: strtoul_fn where
  "decimal_strtoul cp base =
     (let ds = takeWhile is_digit cp; rest = dropWhile is_digit cp
      in if ds = [] then (- EINVAL, 0)
         else if rest = [] \<or> rest = [CHR 0x0A] then (0, of_nat (dec_value ds))
         else (- EINVAL, 0))"

subsection \<open>usb\_tranzport\_interrupt\_in\_callback\<close>

text \<open>The two fields of the kernel's \<^verbatim>\<open>struct urb\<close> that the callback reads.\<close>

record urb =
  status :: int
  actual_length :: nat

text \<open>
  The source file ends inside the else branch of the callback's length test, before the
  labels \<^verbatim>\<open>resubmit\<close> and \<^verbatim>\<open>exit\<close>. The code that is missing is a parameter of the
  model, one function for each place where the file's statements hand over to it: the
  code at label \<^verbatim>\<open>exit\<close>, the code at label \<^verbatim>\<open>resubmit\<close>, the code after the if/else
  on the length, and the rest of the else branch. Each takes the URB and the structure
  and gives a fault, or the structure and the trace it leaves.
\<close>

type_synonym callback_code = "urb \<Rightarrow> usb_tranzport \<Rightarrow> fault + usb_tranzport \<times> action list"

record callback_rest =
  label_exit :: callback_code
  label_resubmit :: callback_code
  after_length_test :: callback_code
  else_branch_rest :: callback_code

text \<open>A log call and then the code that follows it; a fault in the log call ends the run.\<close>

definition log_then ::
  "fault + action list \<Rightarrow> (fault + usb_tranzport \<times> action list) \<Rightarrow>
   fault + usb_tranzport \<times> action list" where
  "log_then l r =
     (case l of
        Inl e \<Rightarrow> Inl e
      | Inr acts \<Rightarrow>
          (case r of Inl e \<Rightarrow> Inl e | Inr (dev, later) \<Rightarrow> Inr (dev, acts @ later)))"

definition usb_tranzport_interrupt_in_callback ::
  "int \<Rightarrow> callback_rest \<Rightarrow> urb \<Rightarrow> usb_tranzport \<Rightarrow> fault + usb_tranzport \<times> action list" where
  "usb_tranzport_interrupt_in_callback dbg rest u dev =
     (if status u \<noteq> 0 then
        (if status u = - ENOENT \<or> status u = - ECONNRESET \<or> status u = - ESHUTDOWN
         then label_exit rest u dev
         else log_then (dbg_info dbg (intf dev) (Nonzero_status (status u)))
                (label_resubmit rest u dev))
      else if actual_length u \<noteq> 8
        then log_then (dev_warn (intf dev) (Urb_length (actual_length u)))
               (after_length_test rest u dev)
        else log_then (dbg_info dbg (intf dev) (Received (take 8 (interrupt_in_buffer dev))))
               (else_branch_rest rest u dev))"

subsection \<open>The ring buffer\<close>

text \<open>
  The structure declares the ring (\<open>ring_buffer\<close>, \<open>ring_head\<close>, \<open>ring_tail\<close>), and the
  callback declares \<^verbatim>\<open>next_ring_head\<close>, but the source file holds no statement that reads
  or writes them. The four operations below follow sections 3 and 4.1 of the specification.
  They take the number of slots \<open>n\<close>, the modulus of the two indices. With head = tail
  meaning empty one slot is always free: a ring that holds up to \<open>N\<close> frames has
  \<open>N + 1\<close> slots.
\<close>

text \<open>
  Modelled from the spec: \<^verbatim>\<open>is_empty\<close>, whose code is not in the source file.
  "Invariant: head == tail means empty".
\<close>

definition ring_is_empty :: "usb_tranzport \<Rightarrow> bool" where
  "ring_is_empty dev = (ring_head dev = ring_tail dev)"

text \<open>
  Modelled from the spec: \<^verbatim>\<open>is_full\<close>, whose code is not in the source file. The spec
  names it and has head and tail as "indices modulo N" with head = tail reserved for the
  empty buffer: the buffer is full when advancing head would make it equal to tail.
\<close>

definition ring_is_full :: "nat \<Rightarrow> usb_tranzport \<Rightarrow> bool" where
  "ring_is_full n dev = ((ring_head dev + 1) mod n = ring_tail dev)"

text \<open>
  Modelled from the spec: \<^verbatim>\<open>push\<close>, whose code is not in the source file. "If full,
  advances tail (drops oldest) then writes at head and advances head."
\<close>

definition ring_push :: "nat \<Rightarrow> tranzport_cmd \<Rightarrow> usb_tranzport \<Rightarrow> usb_tranzport" where
  "ring_push n f dev =
     (let dev1 = (if ring_is_full n dev
                  then dev\<lparr>ring_tail := (ring_tail dev + 1) mod n\<rparr> else dev)
      in dev1\<lparr>ring_buffer := (ring_buffer dev1)[ring_head dev1 := f],
              ring_head := (ring_head dev1 + 1) mod n\<rparr>)"

text \<open>
  Modelled from the spec: \<^verbatim>\<open>pop\<close>, whose code is not in the source file. "Returns none
  if empty; otherwise returns the frame at tail and advances tail."
\<close>

definition ring_pop :: "nat \<Rightarrow> usb_tranzport \<Rightarrow> tranzport_cmd option \<times> usb_tranzport" where
  "ring_pop n dev =
     (if ring_is_empty dev then (None, dev)
      else (Some (ring_buffer dev ! ring_tail dev),
            dev\<lparr>ring_tail := (ring_tail dev + 1) mod n\<rparr>))"

text \<open>
  A ring of \<open>n\<close> slots is well formed when it has a slot, the array has \<open>n\<close> entries and
  both indices are slot numbers.
\<close>

definition ring_ok :: "nat \<Rightarrow> usb_tranzport \<Rightarrow> bool" where
  "ring_ok n dev =
     (0 < n \<and> length (ring_buffer dev) = n \<and> ring_head dev < n \<and> ring_tail dev < n)"

text \<open>Pushing a list of frames in order, and the results of \<open>k\<close> pops in a row.\<close>

definition ring_pushes :: "nat \<Rightarrow> tranzport_cmd list \<Rightarrow> usb_tranzport \<Rightarrow> usb_tranzport" where
  "ring_pushes n fs dev = foldl (\<lambda>d f. ring_push n f d) dev fs"

fun ring_pops :: "nat \<Rightarrow> nat \<Rightarrow> usb_tranzport \<Rightarrow> tranzport_cmd option list" where
  "ring_pops n 0 dev = []"
| "ring_pops n (Suc k) dev =
     (case ring_pop n dev of (r, dev1) \<Rightarrow> r # ring_pops n k dev1)"

text \<open>
  The frames a ring holds, oldest first: the slots from tail up to head, and their number.
\<close>

definition ring_count :: "nat \<Rightarrow> usb_tranzport \<Rightarrow> nat" where
  "ring_count n dev = (ring_head dev + n - ring_tail dev) mod n"

definition ring_contents :: "nat \<Rightarrow> usb_tranzport \<Rightarrow> tranzport_cmd list" where
  "ring_contents n dev =
     map (\<lambda>i. ring_buffer dev ! ((ring_tail dev + i) mod n)) [0 ..< ring_count n dev]"

text \<open>The last \<open>k\<close> elements of a list (all of it when it is shorter).\<close>

definition last_n :: "nat \<Rightarrow> 'a list \<Rightarrow> 'a list" where
  "last_n k xs = drop (length xs - k) xs"

text \<open>
  Sequences of operations on the ring, and the number of frames that, by the operations
  alone, have been pushed and neither popped nor dropped: a push adds one up to the
  \<open>n - 1\<close> frames a ring of \<open>n\<close> slots can hold, a pop takes one away unless there is none.
  That number is 0 exactly when no push has stored a frame since the buffer was last
  drained.
\<close>

datatype ring_op =
  Push tranzport_cmd
  | Pop

fun ring_apply :: "nat \<Rightarrow> usb_tranzport \<Rightarrow> ring_op \<Rightarrow> usb_tranzport" where
  "ring_apply n dev (Push f) = ring_push n f dev"
| "ring_apply n dev Pop = snd (ring_pop n dev)"

definition ring_run :: "nat \<Rightarrow> ring_op list \<Rightarrow> usb_tranzport \<Rightarrow> usb_tranzport" where
  "ring_run n ops dev = foldl (ring_apply n) dev ops"

fun unread_step :: "nat \<Rightarrow> nat \<Rightarrow> ring_op \<Rightarrow> nat" where
  "unread_step n c (Push f) = min (n - 1) (c + 1)"
| "unread_step n c Pop = c - 1"

definition unread :: "nat \<Rightarrow> ring_op list \<Rightarrow> nat" where
  "unread n ops = foldl (unread_step n) 0 ops"

subsection \<open>Concrete values for evaluation\<close>

text \<open>
  The frame whose first byte is \<open>b\<close>; and a structure with no interface, a ring of \<open>n\<close>
  zeroed slots, the two URBs numbered 1 and 2, and every other field zero.
\<close>

definition frame :: "8 word \<Rightarrow> tranzport_cmd" where
  "frame b = \<lparr>cmd = [b, 0, 0, 0, 0, 0, 0, 0]\<rparr>"

definition zeroed_dev :: "nat \<Rightarrow> usb_tranzport" where
  "zeroed_dev n =
     \<lparr>intf = None, open_count = 0,
      ring_buffer = replicate n (frame 0), ring_head = 0, ring_tail = 0,
      interrupt_in_buffer = replicate 8 0, interrupt_in_urb = 1,
      interrupt_in_interval = 0, interrupt_in_endpoint_size = 0,
      interrupt_in_running = 0, interrupt_in_done = 0,
      interrupt_out_buffer = [], interrupt_out_urb = 2,
      interrupt_out_interval = 0, interrupt_out_endpoint_size = 0,
      interrupt_out_busy = 0,
      enable = 0, offline = 0, compress_wheel = 0\<rparr>"


section \<open>Auxiliary facts\<close>

subsection \<open>Decimal texts\<close>

lemma below_ten: "(d::nat) < 10 \<Longrightarrow> d \<in> {0, 1, 2, 3, 4, 5, 6, 7, 8, 9}"
  by auto

lemma digit_char_ok: "d < 10 \<Longrightarrow> is_digit (digit_char d) \<and> digit_of (digit_char d) = d"
  by (drule below_ten) (auto simp: digit_char_def is_digit_def digit_of_def)

lemma dec_digits_all: "c \<in> set (dec_digits n) \<Longrightarrow> is_digit c"
proof (induction n rule: dec_digits.induct)
  case (1 n)
  show ?case
  proof (cases "n < 10")
    case True
    with "1.prems" show ?thesis by (simp add: dec_digits.simps[of n] digit_char_ok)
  next
    case False
    with "1.prems" "1.IH" show ?thesis by (auto simp: dec_digits.simps[of n] digit_char_ok)
  qed
qed

lemma foldl_dec_digits: "foldl (\<lambda>a c. 10 * a + digit_of c) 0 (dec_digits n) = n"
proof (induction n rule: dec_digits.induct)
  case (1 n)
  show ?case
  proof (cases "n < 10")
    case True
    then show ?thesis by (simp add: dec_digits.simps[of n] digit_char_ok)
  next
    case False
    with "1.IH" show ?thesis by (simp add: dec_digits.simps[of n] digit_char_ok)
  qed
qed

lemma dec_value_sprintf: "dec_value (sprintf_d_nl v) = unat v"
proof -
  have nl: "\<not> is_digit (CHR 0x0A)" by (simp add: is_digit_def)
  have "takeWhile is_digit (dec_digits (unat v) @ [CHR 0x0A]) =
        dec_digits (unat v) @ takeWhile is_digit [CHR 0x0A]"
    by (rule takeWhile_append2) (rule dec_digits_all)
  with nl have "takeWhile is_digit (dec_digits (unat v) @ [CHR 0x0A]) = dec_digits (unat v)"
    by simp
  then show ?thesis by (simp add: dec_value_def sprintf_d_nl_def foldl_dec_digits)
qed

lemma decimal_strtoul_samples:
  "decimal_strtoul ''on'' 10 = (- 22, 0)"
  "decimal_strtoul ''300'' 10 = (0, 300)"
  "decimal_strtoul ''2'' 10 = (0, 2)"
  by (simp_all add: decimal_strtoul_def is_digit_def dec_value_def digit_of_def EINVAL_def)

subsection \<open>Slot arithmetic\<close>

lemma count_alt:
  fixes h t n :: nat
  assumes "h < n" "t < n"
  shows "(h + n - t) mod n = (if t \<le> h then h - t else h + n - t)"
proof (cases "t \<le> h")
  case True
  then have "h + n - t = (h - t) + n" by simp
  then have "(h + n - t) mod n = (h - t) mod n" by simp
  with True assms show ?thesis by simp
next
  case False
  with assms show ?thesis by simp
qed

lemma succ_slot:
  fixes t n :: nat
  assumes "t < n"
  shows "(t + 1) mod n = (if t + 1 = n then 0 else t + 1)" and "(t + 1) mod n < n"
  using assms by auto

lemma slot_mod_alt:
  fixes t i n :: nat
  shows "t < n \<Longrightarrow> i < n \<Longrightarrow> (t + i) mod n = (if t + i < n then t + i else t + i - n)"
  by (auto simp: not_less le_mod_geq)

lemma slot_inj:
  fixes t i j n :: nat
  assumes "i < n" "j < n" "(t + i) mod n = (t + j) mod n"
  shows "i = j"
proof -
  have "(t mod n + i) mod n = (t mod n + j) mod n"
    using assms(3) by (simp add: mod_add_left_eq)
  moreover have "t mod n < n" using assms(1) by simp
  ultimately show ?thesis using assms(1,2)
    by (simp add: slot_mod_alt split: if_splits)
qed

lemma head_slot:
  fixes h t n :: nat
  assumes "h < n" "t < n"
  shows "(t + (h + n - t) mod n) mod n = h"
  using assms by (simp add: count_alt)

lemma count_advance_tail:
  fixes h t n c :: nat
  assumes "h < n" "t < n" "(h + n - t) mod n = Suc c"
  shows "(h + n - (t + 1) mod n) mod n = c"
proof -
  define t' where "t' = (t + 1) mod n"
  have t': "t' = (if t + 1 = n then 0 else t + 1)" "t' < n"
    unfolding t'_def using succ_slot[OF assms(2)] by blast+
  have c0: "(if t \<le> h then h - t else h + n - t) = Suc c"
    using assms by (simp only: count_alt[OF assms(1,2), symmetric])
  have "(h + n - t') mod n = (if t' \<le> h then h - t' else h + n - t')"
    using assms(1) t'(2) by (rule count_alt)
  also have "\<dots> = c"
    using c0 t'(1) assms(1,2) by (auto split: if_splits)
  finally show ?thesis by (simp only: t'_def)
qed

lemma count_advance_head:
  fixes h t n :: nat
  assumes "h < n" "t < n" "(h + n - t) mod n < n - 1"
  shows "((h + 1) mod n + n - t) mod n = Suc ((h + n - t) mod n)"
proof -
  define h' where "h' = (h + 1) mod n"
  have h': "h' = (if h + 1 = n then 0 else h + 1)" "h' < n"
    unfolding h'_def using succ_slot[OF assms(1)] by blast+
  have c0: "(h + n - t) mod n = (if t \<le> h then h - t else h + n - t)"
    using assms(1,2) by (rule count_alt)
  have "(h' + n - t) mod n = (if t \<le> h' then h' - t else h' + n - t)"
    using h'(2) assms(2) by (rule count_alt)
  also have "\<dots> = Suc (if t \<le> h then h - t else h + n - t)"
    using assms(3) h'(1) assms(1,2) unfolding c0 by (auto split: if_splits)
  finally show ?thesis by (simp only: h'_def c0)
qed

lemma slots_advance_tail:
  fixes t n c :: nat
  assumes "t < n"
  shows "map (\<lambda>i. buf ! ((t + i) mod n)) [0 ..< Suc c] =
         buf ! t # map (\<lambda>i. buf ! (((t + 1) mod n + i) mod n)) [0 ..< c]"
proof -
  have "\<And>i. ((t + 1) mod n + i) mod n = (t + Suc i) mod n"
    by (simp add: mod_add_left_eq)
  then show ?thesis using assms by (simp add: map_upt_Suc del: upt_Suc)
qed

lemma slots_write_head:
  fixes t n c :: nat
  assumes "c < n" "length buf = n"
  shows "map (\<lambda>i. buf[(t + c) mod n := f] ! ((t + i) mod n)) [0 ..< Suc c] =
         map (\<lambda>i. buf ! ((t + i) mod n)) [0 ..< c] @ [f]"
proof -
  have "(t + c) mod n \<noteq> (t + i) mod n" if "i < c" for i
  proof
    assume "(t + c) mod n = (t + i) mod n"
    with that assms(1) have "i = c" by (intro slot_inj[of i n c t]) auto
    with that show False by simp
  qed
  then have "buf[(t + c) mod n := f] ! ((t + i) mod n) = buf ! ((t + i) mod n)" if "i < c" for i
    using that by simp
  then have "map (\<lambda>i. buf[(t + c) mod n := f] ! ((t + i) mod n)) [0 ..< c] =
             map (\<lambda>i. buf ! ((t + i) mod n)) [0 ..< c]"
    by (intro map_cong) auto
  moreover have "buf[(t + c) mod n := f] ! ((t + c) mod n) = f"
    using assms by simp
  ultimately show ?thesis by simp
qed

lemma length_last_n: "length (last_n k xs) = min (length xs) k"
  by (auto simp: last_n_def)

lemma last_n_short: "length xs \<le> k \<Longrightarrow> last_n k xs = xs"
  by (simp add: last_n_def)

lemma last_n_append: "last_n k (last_n k xs @ ys) = last_n k (xs @ ys)"
proof (cases "k \<le> length xs")
  case True
  then have "length xs + length ys - (length xs - k + k) + (length xs - k) =
             length xs + length ys - k" by arith
  then show ?thesis using True by (simp add: last_n_def)
next
  case False
  then show ?thesis by (simp add: last_n_def)
qed

subsection \<open>The ring holds the frames from tail to head\<close>

lemma ring_count_less: "ring_ok n dev \<Longrightarrow> ring_count n dev < n"
  by (simp add: ring_ok_def ring_count_def)

lemma length_ring_contents: "length (ring_contents n dev) = ring_count n dev"
  by (simp add: ring_contents_def)

lemma ring_count_alt:
  "ring_ok n dev \<Longrightarrow> ring_count n dev =
     (if ring_tail dev \<le> ring_head dev then ring_head dev - ring_tail dev
      else ring_head dev + n - ring_tail dev)"
  unfolding ring_ok_def ring_count_def by (simp add: count_alt)

lemma ring_empty_count: "ring_ok n dev \<Longrightarrow> ring_is_empty dev = (ring_count n dev = 0)"
  by (frule ring_count_alt) (auto simp: ring_is_empty_def ring_ok_def)

lemma ring_full_count: "ring_ok n dev \<Longrightarrow> ring_is_full n dev = (ring_count n dev = n - 1)"
  by (frule ring_count_alt)
    (auto simp: ring_is_full_def ring_ok_def succ_slot(1) simp del: One_nat_def)

lemma ring_empty_contents:
  "ring_ok n dev \<Longrightarrow> ring_is_empty dev = (ring_contents n dev = [])"
  by (metis length_ring_contents length_0_conv ring_empty_count)

lemma ring_advance_tail:
  assumes "ring_ok n dev" "ring_count n dev = Suc c"
  shows "ring_ok n (dev\<lparr>ring_tail := (ring_tail dev + 1) mod n\<rparr>)"
    and "ring_count n (dev\<lparr>ring_tail := (ring_tail dev + 1) mod n\<rparr>) = c"
    and "ring_contents n dev =
           ring_buffer dev ! ring_tail dev #
           ring_contents n (dev\<lparr>ring_tail := (ring_tail dev + 1) mod n\<rparr>)"
proof -
  show "ring_ok n (dev\<lparr>ring_tail := (ring_tail dev + 1) mod n\<rparr>)"
    using assms(1) by (simp add: ring_ok_def)
  show cnt: "ring_count n (dev\<lparr>ring_tail := (ring_tail dev + 1) mod n\<rparr>) = c"
    using assms count_advance_tail[of "ring_head dev" n "ring_tail dev" c]
    by (simp add: ring_ok_def ring_count_def)
  show "ring_contents n dev =
           ring_buffer dev ! ring_tail dev #
           ring_contents n (dev\<lparr>ring_tail := (ring_tail dev + 1) mod n\<rparr>)"
    unfolding ring_contents_def cnt assms(2)
    using assms(1) slots_advance_tail[of "ring_tail dev" n "ring_buffer dev" c]
    by (simp add: ring_ok_def del: upt_Suc)
qed

lemma ring_write_head:
  fixes f :: tranzport_cmd
  assumes "ring_ok n dev" "ring_count n dev < n - 1"
  defines "dev1 \<equiv> dev\<lparr>ring_buffer := (ring_buffer dev)[ring_head dev := f],
                        ring_head := (ring_head dev + 1) mod n\<rparr>"
  shows "ring_ok n dev1"
    and "ring_count n dev1 = Suc (ring_count n dev)"
    and "ring_contents n dev1 = ring_contents n dev @ [f]"
proof -
  show "ring_ok n dev1"
    using assms(1) by (simp add: ring_ok_def dev1_def)
  show cnt: "ring_count n dev1 = Suc (ring_count n dev)"
    using assms(1,2) count_advance_head[of "ring_head dev" n "ring_tail dev"]
    by (simp add: ring_ok_def ring_count_def dev1_def)
  have hs: "ring_head dev = (ring_tail dev + ring_count n dev) mod n"
    using assms(1) head_slot[of "ring_head dev" n "ring_tail dev"]
    by (simp add: ring_ok_def ring_count_def)
  have "ring_count n dev < n" using assms(2) by simp
  then have "map (\<lambda>i. (ring_buffer dev)[(ring_tail dev + ring_count n dev) mod n := f] !
                      ((ring_tail dev + i) mod n)) [0 ..< Suc (ring_count n dev)] =
             map (\<lambda>i. ring_buffer dev ! ((ring_tail dev + i) mod n)) [0 ..< ring_count n dev] @ [f]"
    using assms(1) by (intro slots_write_head) (simp_all add: ring_ok_def)
  then show "ring_contents n dev1 = ring_contents n dev @ [f]"
    unfolding ring_contents_def cnt
    by (simp add: dev1_def hs[symmetric] del: upt_Suc)
qed

lemma ring_pop_empty:
  "ring_ok n dev \<Longrightarrow> ring_contents n dev = [] \<Longrightarrow> ring_pop n dev = (None, dev)"
  by (simp add: ring_pop_def ring_empty_contents)

lemma ring_pop_nonempty:
  assumes "ring_ok n dev" "ring_contents n dev = x # xs"
  shows "fst (ring_pop n dev) = Some x"
    and "ring_ok n (snd (ring_pop n dev))"
    and "ring_contents n (snd (ring_pop n dev)) = xs"
proof -
  have ne: "\<not> ring_is_empty dev"
    using assms by (simp add: ring_empty_contents)
  have cnt: "ring_count n dev = Suc (length xs)"
    using assms(2) length_ring_contents[of n dev] by simp
  note adv = ring_advance_tail[OF assms(1) cnt]
  show "fst (ring_pop n dev) = Some x"
    using ne adv(3) assms(2) by (simp add: ring_pop_def)
  show "ring_ok n (snd (ring_pop n dev))"
    using ne adv(1) by (simp add: ring_pop_def)
  show "ring_contents n (snd (ring_pop n dev)) = xs"
    using ne adv(3) assms(2) by (simp add: ring_pop_def)
qed

lemma ring_pop_ok: "ring_ok n dev \<Longrightarrow> ring_ok n (snd (ring_pop n dev))"
  by (simp add: ring_pop_def ring_ok_def)

lemma ring_pop_tl:
  "ring_ok n dev \<Longrightarrow> ring_contents n (snd (ring_pop n dev)) = tl (ring_contents n dev)"
  by (cases "ring_contents n dev") (simp_all add: ring_pop_empty ring_pop_nonempty(3))

lemma ring_pops_contents:
  "ring_ok n dev \<Longrightarrow>
   ring_pops n k dev =
     map Some (take k (ring_contents n dev)) @
     replicate (k - length (ring_contents n dev)) None"
proof (induction k arbitrary: dev)
  case 0
  show ?case by simp
next
  case (Suc k)
  show ?case
  proof (cases "ring_contents n dev")
    case Nil
    with Suc.prems have pop: "ring_pop n dev = (None, dev)" by (simp add: ring_pop_empty)
    show ?thesis using Suc.IH[OF Suc.prems] Nil pop by (simp add: replicate_app_Cons_same)
  next
    case (Cons x xs)
    note pop = ring_pop_nonempty[OF Suc.prems Cons]
    obtain r dev1 where eq: "ring_pop n dev = (r, dev1)" by (cases "ring_pop n dev")
    with pop have "r = Some x" "ring_ok n dev1" "ring_contents n dev1 = xs" by simp_all
    with Suc.IH[of dev1] eq Cons show ?thesis by simp
  qed
qed

lemma ring_push_contents:
  assumes "ring_ok n dev"
  shows "ring_ok n (ring_push n f dev)"
    and "ring_contents n (ring_push n f dev) = last_n (n - 1) (ring_contents n dev @ [f])"
proof -
  have both: "ring_ok n (ring_push n f dev) \<and>
        ring_contents n (ring_push n f dev) = last_n (n - 1) (ring_contents n dev @ [f])"
  proof (cases "ring_is_full n dev")
    case False
    then have lt: "ring_count n dev < n - 1"
      using assms ring_count_less[OF assms] by (simp add: ring_full_count)
    note w = ring_write_head[OF assms lt, of f]
    have "length (ring_contents n dev @ [f]) \<le> n - 1"
      using lt by (simp add: length_ring_contents)
    then show ?thesis
      using False w by (simp add: ring_push_def last_n_short)
  next
    case True
    then have full: "ring_count n dev = n - 1"
      using assms by (simp add: ring_full_count)
    show ?thesis
    proof (cases "n = 1")
      case True
      with assms have "ring_head dev = 0" "ring_tail dev = 0" "length (ring_buffer dev) = 1"
        by (simp_all add: ring_ok_def)
      with True \<open>ring_is_full n dev\<close> show ?thesis
        by (simp add: ring_push_def ring_ok_def ring_contents_def ring_count_def last_n_def)
    next
      case False
      with assms have n2: "2 \<le> n" by (simp add: ring_ok_def)
      then have cnt: "ring_count n dev = Suc (n - 2)" using full by simp
      define dev1 where "dev1 = dev\<lparr>ring_tail := (ring_tail dev + 1) mod n\<rparr>"
      note adv = ring_advance_tail[OF assms cnt, folded dev1_def]
      have lt: "ring_count n dev1 < n - 1" using adv(2) n2 by simp
      note w = ring_write_head[OF adv(1) lt, of f]
      have push: "ring_push n f dev =
          dev1\<lparr>ring_buffer := (ring_buffer dev1)[ring_head dev1 := f],
               ring_head := (ring_head dev1 + 1) mod n\<rparr>"
        using True by (simp add: ring_push_def dev1_def)
      have "length (ring_contents n dev1) = n - 2"
        using adv(2) by (simp add: length_ring_contents)
      moreover have "Suc (Suc (n - 2)) - (n - 1) = 1" using n2 by arith
      ultimately have "last_n (n - 1) (ring_contents n dev @ [f]) = ring_contents n dev1 @ [f]"
        using adv(3) by (simp add: last_n_def)
      then show ?thesis using w push by simp
    qed
  qed
  from both show "ring_ok n (ring_push n f dev)" ..
  from both show "ring_contents n (ring_push n f dev) = last_n (n - 1) (ring_contents n dev @ [f])" ..
qed

lemma ring_pushes_contents:
  "ring_ok n dev \<Longrightarrow>
   ring_ok n (ring_pushes n fs dev) \<and>
   ring_contents n (ring_pushes n fs dev) = last_n (n - 1) (ring_contents n dev @ fs)"
proof (induction fs arbitrary: dev)
  case Nil
  then show ?case
    using ring_count_less[OF Nil]
    by (simp add: ring_pushes_def last_n_short length_ring_contents)
next
  case (Cons f fs)
  note p = ring_push_contents[OF Cons.prems, of f]
  have "ring_pushes n (f # fs) dev = ring_pushes n fs (ring_push n f dev)"
    by (simp add: ring_pushes_def)
  with Cons.IH[OF p(1)] p(2) show ?case
    by (simp add: last_n_append)
qed

lemma ring_run_count:
  "ring_ok n dev \<Longrightarrow>
   ring_ok n (ring_run n ops dev) \<and>
   ring_count n (ring_run n ops dev) = foldl (unread_step n) (ring_count n dev) ops"
proof (induction ops arbitrary: dev)
  case Nil
  then show ?case by (simp add: ring_run_def)
next
  case (Cons op ops)
  have step: "ring_ok n (ring_apply n dev op) \<and>
              ring_count n (ring_apply n dev op) = unread_step n (ring_count n dev) op"
  proof (cases op)
    case (Push f)
    note p = ring_push_contents[OF Cons.prems, of f]
    have "ring_count n (ring_push n f dev) = length (last_n (n - 1) (ring_contents n dev @ [f]))"
      using p(2) length_ring_contents[of n "ring_push n f dev"] by simp
    then show ?thesis using Push p(1)
      by (simp add: length_last_n length_ring_contents min.commute)
  next
    case Pop
    have "ring_count n (snd (ring_pop n dev)) = length (tl (ring_contents n dev))"
      using ring_pop_tl[OF Cons.prems] length_ring_contents[of n "snd (ring_pop n dev)"] by simp
    then show ?thesis using Pop ring_pop_ok[OF Cons.prems]
      by (simp add: length_ring_contents)
  qed
  have "ring_run n (op # ops) dev = ring_run n ops (ring_apply n dev op)"
    by (simp add: ring_run_def)
  with Cons.IH[of "ring_apply n dev op"] step show ?case by simp
qed

lemma zeroed_ring_ok: "0 < n \<Longrightarrow> ring_ok n (zeroed_dev n) \<and> ring_is_empty (zeroed_dev n)"
  by (simp add: ring_ok_def ring_is_empty_def zeroed_dev_def)

text \<open>
  Whatever wrote the ring, a well-formed ring of \<open>n\<close> slots holds at most \<open>n - 1\<close> frames:
  of \<open>n\<close> pops in a row, the last one finds it empty.
\<close>

lemma ring_last_of_n_pops:
  assumes "ring_ok n dev"
  shows "length (ring_contents n dev) \<le> n - 1" and "last (ring_pops n n dev) = None"
proof -
  have lt: "length (ring_contents n dev) < n"
    using ring_count_less[OF assms] by (simp add: length_ring_contents)
  then show "length (ring_contents n dev) \<le> n - 1" by simp
  from lt obtain m where m: "n - length (ring_contents n dev) = Suc m"
    by (cases "n - length (ring_contents n dev)") simp_all
  show "last (ring_pops n n dev) = None"
    unfolding ring_pops_contents[OF assms, of n] m by (simp add: replicate_append_same)
qed

subsection \<open>The kernel calls of usb\_tranzport\_abort\_transfers\<close>


subsection \<open>The completion callback, statement by statement\<close>



lemma callback_on_gone_status:
  "status u = - ENOENT \<or> status u = - ECONNRESET \<or> status u = - ESHUTDOWN \<Longrightarrow>
   usb_tranzport_interrupt_in_callback dbg rest u dev = label_exit rest u dev"
  by (auto simp: usb_tranzport_interrupt_in_callback_def ENOENT_def ECONNRESET_def
      ESHUTDOWN_def)






subsection \<open>Rings by the number of slots\<close>

text \<open>
  After any frames are pushed onto an empty ring of \<open>n\<close> slots, pops return the most recent
  \<open>n - 1\<close> of them, oldest first, and none from then on. A ring of one slot is empty at
  all times.
\<close>

lemma ring_pops_pushes:
  assumes "ring_ok n dev" "ring_is_empty dev"
  shows "ring_ok n (ring_pushes n fs dev)"
    and "ring_pops n k (ring_pushes n fs dev) =
           map Some (take k (last_n (n - 1) fs)) @
           replicate (k - min (length fs) (n - 1)) None"
proof -
  have "ring_contents n dev = []"
    using assms by (simp add: ring_empty_contents)
  with ring_pushes_contents[OF assms(1), of fs]
  have c: "ring_contents n (ring_pushes n fs dev) = last_n (n - 1) fs"
    by simp
  show ok: "ring_ok n (ring_pushes n fs dev)"
    using ring_pushes_contents[OF assms(1), of fs] ..
  show "ring_pops n k (ring_pushes n fs dev) =
           map Some (take k (last_n (n - 1) fs)) @
           replicate (k - min (length fs) (n - 1)) None"
    using ring_pops_contents[OF ok, of k] by (simp add: c length_last_n)
qed

lemma ring_one_slot:
  assumes "ring_ok 1 dev"
  shows "ring_is_empty dev" and "ring_pop 1 dev = (None, dev)"
proof -
  show e: "ring_is_empty dev"
    using assms by (simp add: ring_ok_def ring_is_empty_def)
  then show "ring_pop 1 dev = (None, dev)"
    by (simp add: ring_pop_def)
qed

section \<open>The claims\<close>

subsection \<open>Teardown and the completion callback\<close>

text \<open>
  Claim C10. \<^verbatim>\<open>usb_tranzport_abort_transfers\<close> writes no field of the structure but
  \<open>interrupt_in_running\<close>, which it clears when it was set: the structure it leaves is the
  one it was given with that flag at 0, so \<open>interrupt_out_busy\<close>, the ring indices and the
  ring, the open count and the three status fields are as before; and a second call in a
  row leaves the structure as the first call left it. (\<^verbatim>\<open>usb_kill_urb\<close> is a call into
  the kernel on a URB; it appears in the trace and is not a write of this function to
  the structure.)
\<close>

theorem abort_transfers_frame:
  "fst (usb_tranzport_abort_transfers dev) =
     (if interrupt_in_running dev \<noteq> 0 then dev\<lparr>interrupt_in_running := 0\<rparr> else dev) \<and>
   fst (usb_tranzport_abort_transfers dev) = dev\<lparr>interrupt_in_running := 0\<rparr> \<and>
   interrupt_out_busy (fst (usb_tranzport_abort_transfers dev)) = interrupt_out_busy dev \<and>
   ring_head (fst (usb_tranzport_abort_transfers dev)) = ring_head dev \<and>
   ring_tail (fst (usb_tranzport_abort_transfers dev)) = ring_tail dev \<and>
   ring_buffer (fst (usb_tranzport_abort_transfers dev)) = ring_buffer dev \<and>
   open_count (fst (usb_tranzport_abort_transfers dev)) = open_count dev \<and>
   enable (fst (usb_tranzport_abort_transfers dev)) = enable dev \<and>
   offline (fst (usb_tranzport_abort_transfers dev)) = offline dev \<and>
   compress_wheel (fst (usb_tranzport_abort_transfers dev)) = compress_wheel dev \<and>
   fst (usb_tranzport_abort_transfers (fst (usb_tranzport_abort_transfers dev))) =
     fst (usb_tranzport_abort_transfers dev)"
  by (simp add: usb_tranzport_abort_transfers_def Let_def)



subsection \<open>Module parameters and sysfs attributes\<close>

text \<open>
  Claim C8. With nothing set at load time the ring buffer has 1000 reports, the write
  buffer 34 bytes, the minimum interrupt-in and interrupt-out intervals are 10 ms each,
  and debugging is off (0).
\<close>

theorem load_time_defaults:
  "ring_buffer_size initial_params = 1000 \<and>
   write_buffer_size initial_params = 34 \<and>
   min_interrupt_in_interval initial_params = 10 \<and>
   min_interrupt_out_interval initial_params = 10 \<and>
   debug initial_params = 0"
  by (simp add: initial_params_def RING_BUFFER_SIZE_def WRITE_BUFFER_SIZE_def
      TRANZPORT_USB_TIMEOUT_def TRANZPORT_DEBUG_def)

text \<open>
  Claim C7. The attributes \<open>enable\<close> and \<open>offline\<close> have no store function and mode
  \<^verbatim>\<open>S_IRUGO\<close>, which has no write bit (octal 0222 is 146); \<open>compress_wheel\<close> has the
  store function \<^verbatim>\<open>set_compress_wheel\<close> and mode \<^verbatim>\<open>S_IWUSR | S_IRUGO\<close>, with the owner's
  write bit and the read bits. Reading any of the three gives the decimal digits of the
  field of that name and a newline, a text that denotes the field's current value.
\<close>

theorem sysfs_attribute_access:
  "attr_store dev_attr_enable = None \<and>
   attr_store dev_attr_offline = None \<and>
   attr_store (dev_attr_compress_wheel p) = Some (set_compress_wheel p) \<and>
   attr_mode dev_attr_enable = S_IRUGO \<and>
   attr_mode dev_attr_offline = S_IRUGO \<and>
   attr_mode (dev_attr_compress_wheel p) = S_IWUSR OR S_IRUGO \<and>
   S_IRUGO AND 146 = 0 \<and>
   (S_IWUSR OR S_IRUGO) AND S_IWUSR = S_IWUSR \<and>
   (S_IWUSR OR S_IRUGO) AND S_IRUGO = S_IRUGO \<and>
   attr_show dev_attr_enable t = dec_digits (unat (enable t)) @ [CHR 0x0A] \<and>
   attr_show dev_attr_offline t = dec_digits (unat (offline t)) @ [CHR 0x0A] \<and>
   attr_show (dev_attr_compress_wheel p) t =
     dec_digits (unat (compress_wheel t)) @ [CHR 0x0A] \<and>
   dec_value (attr_show dev_attr_enable t) = unat (enable t) \<and>
   dec_value (attr_show dev_attr_offline t) = unat (offline t) \<and>
   dec_value (attr_show (dev_attr_compress_wheel p) t) = unat (compress_wheel t)"
proof -
  have modes: "S_IRUGO AND 146 = 0" "(S_IWUSR OR S_IRUGO) AND S_IWUSR = S_IWUSR"
     "(S_IWUSR OR S_IRUGO) AND S_IRUGO = S_IRUGO"
    by (simp_all add: S_IRUGO_def S_IWUSR_def)
  show ?thesis
    using modes
    by (simp add: dev_attr_enable_def dev_attr_offline_def dev_attr_compress_wheel_def
        show_enable_def show_offline_def show_compress_wheel_def dec_value_sprintf)
      (simp add: sprintf_d_nl_def)
qed

text \<open>
  Claim C9. Whatever \<^verbatim>\<open>strict_strtoul\<close> is: when it refuses the text (a nonzero result), the
  write to \<open>compress_wheel\<close> returns \<^verbatim>\<open>-EINVAL\<close> and the structure is unchanged; when it
  accepts the text with the number \<open>v\<close>, the write returns \<open>count\<close> and stores \<open>v\<close> cut
  to its low eight bits, \<open>v mod 256\<close>, whether or not \<open>v\<close> is 0 or 1.
\<close>

theorem set_compress_wheel_parse:
  "(fst (p buf 10) \<noteq> 0 \<longrightarrow>
      set_compress_wheel p buf count t = (Inl (- EINVAL), t)) \<and>
   (fst (p buf 10) = 0 \<longrightarrow>
      set_compress_wheel p buf count t =
        (Inr count, t\<lparr>compress_wheel := ucast (snd (p buf 10))\<rparr>) \<and>
      unat (compress_wheel (snd (set_compress_wheel p buf count t))) =
        unat (snd (p buf 10)) mod 256)"
  by (cases "p buf 10") (simp add: set_compress_wheel_def unsigned_ucast_eq take_bit_eq_mod)

theorem set_compress_wheel_parse_witness:
  "set_compress_wheel decimal_strtoul ''on'' 2 (zeroed_dev 0) = (Inl (- 22), zeroed_dev 0) \<and>
   set_compress_wheel decimal_strtoul ''300'' 3 (zeroed_dev 0) =
     (Inr 3, (zeroed_dev 0)\<lparr>compress_wheel := 44\<rparr>) \<and>
   set_compress_wheel decimal_strtoul ''2'' 1 (zeroed_dev 0) =
     (Inr 1, (zeroed_dev 0)\<lparr>compress_wheel := 2\<rparr>)"
  using set_compress_wheel_parse[of decimal_strtoul "''on''" 2 "zeroed_dev 0"]
    set_compress_wheel_parse[of decimal_strtoul "''300''" 3 "zeroed_dev 0"]
    set_compress_wheel_parse[of decimal_strtoul "''2''" 1 "zeroed_dev 0"]
  by (simp add: decimal_strtoul_samples EINVAL_def)

subsection \<open>The ring buffer\<close>




text \<open>
  Claim C6. After any sequence of pushes and pops on a well-formed ring that was empty,
  \<^verbatim>\<open>is_empty\<close> holds exactly when \<open>ring_head\<close> equals \<open>ring_tail\<close>, exactly when the
  ring holds no frame, and exactly when the operations have left no frame unread: no push
  has stored a frame since the buffer was last drained.
\<close>

theorem ring_empty_iff_head_eq_tail:
  assumes "ring_ok n dev" "ring_is_empty dev"
  shows "ring_is_empty (ring_run n ops dev) =
           (ring_head (ring_run n ops dev) = ring_tail (ring_run n ops dev)) \<and>
         ring_is_empty (ring_run n ops dev) = (unread n ops = 0) \<and>
         ring_is_empty (ring_run n ops dev) = (ring_contents n (ring_run n ops dev) = [])"
proof -
  have c0: "ring_count n dev = 0"
    using assms by (simp add: ring_empty_count)
  note run = ring_run_count[OF assms(1), of ops]
  from run have ok: "ring_ok n (ring_run n ops dev)" ..
  from run c0 have "ring_count n (ring_run n ops dev) = unread n ops"
    by (simp add: unread_def)
  then have "ring_is_empty (ring_run n ops dev) = (unread n ops = 0)"
    by (simp add: ring_empty_count[OF ok])
  moreover have "ring_is_empty (ring_run n ops dev) =
      (ring_head (ring_run n ops dev) = ring_tail (ring_run n ops dev))"
    by (simp add: ring_is_empty_def)
  moreover note ring_empty_contents[OF ok]
  ultimately show ?thesis by blast
qed

theorem ring_empty_iff_head_eq_tail_witness:
  "ring_is_empty (ring_run 3 [Push (frame 65), Pop] (zeroed_dev 3)) \<and>
   unread 3 [Push (frame 65), Pop] = 0 \<and>
   \<not> ring_is_empty (ring_run 3 [Push (frame 65), Push (frame 66), Pop] (zeroed_dev 3)) \<and>
   unread 3 [Push (frame 65), Push (frame 66), Pop] = 1"
proof -
  have ok: "ring_ok 3 (zeroed_dev 3)" "ring_is_empty (zeroed_dev 3)"
    using zeroed_ring_ok[of 3] by simp_all
  have u1: "unread 3 [Push (frame 65), Pop] = 0"
    and u2: "unread 3 [Push (frame 65), Push (frame 66), Pop] = 1"
    by (simp_all add: unread_def)
  from ring_empty_iff_head_eq_tail[OF ok, of "[Push (frame 65), Pop]"] u1
  have "ring_is_empty (ring_run 3 [Push (frame 65), Pop] (zeroed_dev 3))" by blast
  moreover
  from ring_empty_iff_head_eq_tail[OF ok, of "[Push (frame 65), Push (frame 66), Pop]"] u2
  have "\<not> ring_is_empty (ring_run 3 [Push (frame 65), Push (frame 66), Pop] (zeroed_dev 3))"
    by (metis zero_neq_one)
  ultimately show ?thesis using u1 u2 by blast
qed

text \<open>
  Claim C2. A push is a total function of the structure: it returns no error, waits for
  nothing, and takes a well-formed ring to a well-formed ring. On a ring buffer of
  capacity \<open>N\<close>, one that holds up to \<open>N\<close> frames and so has \<open>N + 1\<close> slots, after any list
  of frames is pushed onto the empty ring, \<open>k\<close> pops in a row return the most recent \<open>N\<close>
  of the frames (all of them when there are fewer), oldest first, and none from then on;
  when more than \<open>N\<close> frames were pushed, \<open>N\<close> pops return exactly the most recent \<open>N\<close> in
  arrival order, and one more pop returns none. With capacity 3, after A, B, C, D three
  pops return B, C, D.
\<close>

theorem ring_keeps_most_recent:
  assumes "ring_ok (Suc N) dev" "ring_is_empty dev"
  shows "ring_ok (Suc N) (ring_pushes (Suc N) fs dev) \<and>
         ring_pops (Suc N) k (ring_pushes (Suc N) fs dev) =
           map Some (take k (last_n N fs)) @ replicate (k - min (length fs) N) None \<and>
         (N < length fs \<longrightarrow>
            ring_pops (Suc N) N (ring_pushes (Suc N) fs dev) = map Some (last_n N fs) \<and>
            ring_pops (Suc N) (Suc N) (ring_pushes (Suc N) fs dev) =
              map Some (last_n N fs) @ [None])"
proof -
  note pp = ring_pops_pushes[OF assms, where fs = fs]
  have gen: "ring_pops (Suc N) k (ring_pushes (Suc N) fs dev) =
           map Some (take k (last_n N fs)) @ replicate (k - min (length fs) N) None" for k
    using pp(2)[where k = k] by simp
  have "ring_pops (Suc N) N (ring_pushes (Suc N) fs dev) = map Some (last_n N fs)"
    and "ring_pops (Suc N) (Suc N) (ring_pushes (Suc N) fs dev) =
           map Some (last_n N fs) @ [None]"
    if "N < length fs"
  proof -
    from that have len: "length (last_n N fs) = N" by (simp add: length_last_n)
    then have t: "take N (last_n N fs) = last_n N fs"
      and t': "take (Suc N) (last_n N fs) = last_n N fs" by simp_all
    from that have m: "min (length fs) N = N" by simp
    show "ring_pops (Suc N) N (ring_pushes (Suc N) fs dev) = map Some (last_n N fs)"
      unfolding gen[of N] t m by simp
    show "ring_pops (Suc N) (Suc N) (ring_pushes (Suc N) fs dev) =
           map Some (last_n N fs) @ [None]"
      unfolding gen[of "Suc N"] t' m by simp
  qed
  with pp(1) gen[of k] show ?thesis by blast
qed

text \<open>
  The scenario of claim C2: capacity 3, the frames A, B, C, D with first byte 65 to 68.
\<close>

theorem ring_keeps_most_recent_witness:
  "ring_pops 4 3 (ring_pushes 4 [frame 65, frame 66, frame 67, frame 68] (zeroed_dev 4)) =
     [Some (frame 66), Some (frame 67), Some (frame 68)] \<and>
   ring_pops 4 4 (ring_pushes 4 [frame 65, frame 66, frame 67, frame 68] (zeroed_dev 4)) =
     [Some (frame 66), Some (frame 67), Some (frame 68), None]"
proof -
  let ?fs = "[frame 65, frame 66, frame 67, frame 68]"
  have ok: "ring_ok (Suc 3) (zeroed_dev 4)" "ring_is_empty (zeroed_dev 4)"
    using zeroed_ring_ok[of 4] by simp_all
  have long: "3 < length ?fs" by simp
  have l: "last_n 3 ?fs = [frame 66, frame 67, frame 68]" by (simp add: last_n_def)
  from ring_keeps_most_recent[OF ok, where fs = "?fs" and k = 0] long
  have "ring_pops (Suc 3) 3 (ring_pushes (Suc 3) ?fs (zeroed_dev 4)) = map Some (last_n 3 ?fs)"
    and "ring_pops (Suc 3) (Suc 3) (ring_pushes (Suc 3) ?fs (zeroed_dev 4)) =
           map Some (last_n 3 ?fs) @ [None]"
    by blast+
  then show ?thesis unfolding l by simp
qed

end
